theory Spec2Isabelle
  imports Main "HOL-Library.AList" "HOL-Library.Sublist"
begin

section \<open>Data model\<close>

text \<open>
  The exceptions the module can raise, as values. Both assertions of
  \<^verbatim>\<open>BgzfWrapper.seek\<close> raise Python's \<^verbatim>\<open>AssertionError\<close>; they are told apart by
  the assertion that failed: \<open>UnsupportedOperation\<close> is
  \<^verbatim>\<open>assert(whence != os.SEEK_END)\<close>, \<open>InvalidSeek\<close> is \<^verbatim>\<open>assert(distance >= 0)\<close>.
  \<open>NotFound part\<close> is \<^verbatim>\<open>RuntimeError("{} not found".format(part))\<close> of
  \<^verbatim>\<open>Index.readdir\<close>, and \<open>KeyError name\<close> is what \<^verbatim>\<open>self.children[name]\<close> raises
  in \<^verbatim>\<open>IndexNode.get_child\<close> for a missing key.
\<close>

datatype error = UnsupportedOperation | InvalidSeek | NotFound string | KeyError string

text \<open>\<^verbatim>\<open>os.SEEK_SET\<close>, \<^verbatim>\<open>os.SEEK_CUR\<close> and \<^verbatim>\<open>os.SEEK_END\<close>.\<close>

definition SEEK_SET :: int where "SEEK_SET = 0"
definition SEEK_CUR :: int where "SEEK_CUR = 1"
definition SEEK_END :: int where "SEEK_END = 2"

text \<open>
  The \<^verbatim>\<open>Bio.bgzf.BgzfReader\<close> is an external collaborator. It enters the model as a
  parameter: a state of type \<open>'r\<close> and the three methods the module calls on it. A read
  returns the bytes (a Python 2 \<^verbatim>\<open>str\<close>) and the reader's next state; \<open>rd_tell\<close> is the
  BGZF virtual offset, a Python integer.
\<close>

record 'r BgzfReader =
  rd_read :: "'r \<Rightarrow> int \<Rightarrow> string \<times> 'r"
  rd_readline :: "'r \<Rightarrow> string \<times> 'r"
  rd_tell :: "'r \<Rightarrow> int"

text \<open>\<^verbatim>\<open>class BgzfWrapper\<close>: the wrapped reader and the tracked offset.\<close>

record 'r BgzfWrapper =
  reader :: 'r
  offset :: int

text \<open>\<^verbatim>\<open>class IndexEntry\<close>; the field \<^verbatim>\<open>size\<close> is \<open>entry_size\<close> here.\<close>

record IndexEntry =
  virtual_offset :: int
  real_offset :: int
  entry_size :: int
  next_virtual_offset :: int

text \<open>
  \<^verbatim>\<open>class IndexNode\<close>. The \<^verbatim>\<open>children\<close> dictionary is an association list that
  is only read through \<open>map_of\<close> and written through \<open>AList.update\<close>, which replaces
  the value of a key that is present and adds a key that is not. The order in which
  Python iterates over the keys is unspecified; the list order here is one possible
  order, and every statement below about the listed names is about their set.
\<close>

datatype IndexNode = IndexNode (children: "(string \<times> IndexNode) list") (entry: "IndexEntry option")

text \<open>\<^verbatim>\<open>class Index\<close>: the root node.\<close>

datatype Index = Index (root: IndexNode)

section \<open>The forward-seek adapter\<close>

text \<open>\<^verbatim>\<open>BgzfWrapper.__init__\<close>, with \<^verbatim>\<open>initial_offset=0\<close> passed explicitly.\<close>

definition wrap :: "'r \<Rightarrow> int \<Rightarrow> 'r BgzfWrapper" where
  "wrap r initial_offset = \<lparr>reader = r, offset = initial_offset\<rparr>"

text \<open>\<^verbatim>\<open>BgzfWrapper.read\<close>: forward to the reader and add the length to the offset.\<close>

definition read :: "'r BgzfReader \<Rightarrow> 'r BgzfWrapper \<Rightarrow> int \<Rightarrow> string \<times> 'r BgzfWrapper" where
  "read R w sz =
     (case rd_read R (reader w) sz of
        (bytes_read, r') \<Rightarrow>
          (bytes_read, w\<lparr>reader := r', offset := offset w + int (length bytes_read)\<rparr>))"

text \<open>\<^verbatim>\<open>BgzfWrapper.readline\<close>.\<close>

definition readline :: "'r BgzfReader \<Rightarrow> 'r BgzfWrapper \<Rightarrow> string \<times> 'r BgzfWrapper" where
  "readline R w =
     (case rd_readline R (reader w) of
        (line, r') \<Rightarrow> (line, w\<lparr>reader := r', offset := offset w + int (length line)\<rparr>))"

text \<open>\<^verbatim>\<open>BgzfWrapper.tell\<close>.\<close>

definition tell :: "'r BgzfWrapper \<Rightarrow> int" where
  "tell w = offset w"

text \<open>
  The \<^verbatim>\<open>while distance > 0\<close> loop of \<^verbatim>\<open>BgzfWrapper.seek\<close>: read \<open>distance\<close> bytes,
  subtract what came back, and leave the loop when nothing came back.
\<close>

function seek_loop :: "'r BgzfReader \<Rightarrow> 'r BgzfWrapper \<Rightarrow> int \<Rightarrow> 'r BgzfWrapper" where
  "seek_loop R w distance =
     (if distance > 0
      then (case read R w distance of
              (bytes_read, w') \<Rightarrow>
                (if int (length bytes_read) = 0 then w'
                 else seek_loop R w' (distance - int (length bytes_read))))
      else w)"
  by pat_completeness auto
termination
  by (relation "measure (\<lambda>(R, w, distance). nat distance)") auto

text \<open>
  \<^verbatim>\<open>BgzfWrapper.seek\<close>. The result pairs how the call ended (\<open>Inl\<close> the failed
  assertion, \<open>Inr ()\<close> a normal return) with the adapter afterwards.
\<close>

definition seek :: "'r BgzfReader \<Rightarrow> 'r BgzfWrapper \<Rightarrow> int \<Rightarrow> int \<Rightarrow> (error + unit) \<times> 'r BgzfWrapper" where
  "seek R w offs whence =
     (let distance = (if whence = SEEK_SET then offs - offset w else offs)
      in if \<not> (whence \<noteq> SEEK_END) then (Inl UnsupportedOperation, w)
         else if \<not> (distance \<ge> 0) then (Inl InvalidSeek, w)
         else (Inr (), seek_loop R w distance))"

section \<open>Path splitting\<close>

text \<open>
  \<^verbatim>\<open>os.path.split\<close> is the standard library's \<^verbatim>\<open>posixpath.split\<close>:
  \<^verbatim>\<open>i = p.rfind('/') + 1; head, tail = p[:i], p[i:]\<close>, and then
  \<^verbatim>\<open>if head and head != '/'*len(head): head = head.rstrip('/')\<close>.
  \<open>rfind\<close> is \<^verbatim>\<open>str.rfind\<close> for a single character (the last index of it, or \<open>-1\<close>),
  \<open>rstrip\<close> is \<^verbatim>\<open>str.rstrip\<close> for a single character.
\<close>

definition rfind :: "string \<Rightarrow> char \<Rightarrow> int" where
  "rfind p c = (if c \<in> set p
                then int (length p) - 1 - int (length (takeWhile (\<lambda>x. x \<noteq> c) (rev p)))
                else - 1)"

definition rstrip :: "string \<Rightarrow> char \<Rightarrow> string" where
  "rstrip p c = rev (dropWhile (\<lambda>x. x = c) (rev p))"

definition os_path_split :: "string \<Rightarrow> string \<times> string" where
  "os_path_split p =
     (let i = nat (rfind p CHR ''/'' + 1);
          head = take i p;
          tail = drop i p
      in (if head \<noteq> [] \<and> head \<noteq> replicate (length head) CHR ''/''
          then rstrip head CHR ''/'' else head, tail))"

text \<open>
  \<^verbatim>\<open>os.path.join\<close> with two arguments (\<^verbatim>\<open>posixpath.join\<close>): a second argument that
  starts with a slash replaces the first; otherwise it is appended, after a slash unless
  the first is empty or already ends with one.
\<close>

definition os_path_join :: "string \<Rightarrow> string \<Rightarrow> string" where
  "os_path_join a b =
     (if b \<noteq> [] \<and> hd b = CHR ''/'' then b
      else if a = [] \<or> last a = CHR ''/'' then a @ b
      else a @ CHR ''/'' # b)"

text \<open>
  \<^verbatim>\<open>Index.atomize_path\<close>. The recursion on \<open>head\<close> has no visible bound, so the
  function is partial: \<open>None\<close> means that the recursion never returns (the interpreter
  ends it with \<^verbatim>\<open>RuntimeError: maximum recursion depth exceeded\<close>). The interpreter's
  recursion limit itself is not modelled.
\<close>

partial_function (option) atomize_path :: "string \<Rightarrow> string list option" where
  "atomize_path path =
     (case os_path_split path of
        (head, tail) \<Rightarrow>
          Option.bind (if head \<noteq> [] then atomize_path head else Some [])
            (\<lambda>parts. Some (if tail \<noteq> [] then parts @ [tail] else parts)))"

text \<open>
  What the specification says the splitting computes: the non-empty pieces between
  slashes. \<open>split_on\<close> is \<^verbatim>\<open>str.split\<close> for a single separator character.
\<close>

fun split_on :: "char \<Rightarrow> string \<Rightarrow> string list" where
  "split_on c [] = [[]]"
| "split_on c (x # xs) =
     (if x = c then [] # split_on c xs
      else (case split_on c xs of [] \<Rightarrow> [[x]] | w # ws \<Rightarrow> (x # w) # ws))"

definition components :: "string \<Rightarrow> string list" where
  "components p = filter (\<lambda>w. w \<noteq> []) (split_on CHR ''/'' p)"

text \<open>\<^verbatim>\<open>os.path.isabs\<close>: the path starts with a slash.\<close>

definition isabs :: "string \<Rightarrow> bool" where
  "isabs p = (p \<noteq> [] \<and> hd p = CHR ''/'')"

section \<open>The index tree\<close>

text \<open>\<^verbatim>\<open>IndexNode.has_child\<close>, \<^verbatim>\<open>make_child\<close>, \<^verbatim>\<open>get_child\<close>, \<^verbatim>\<open>get_children\<close>.\<close>

definition has_child :: "IndexNode \<Rightarrow> string \<Rightarrow> bool" where
  "has_child n name = (map_of (children n) name \<noteq> None)"

definition make_child :: "IndexNode \<Rightarrow> string \<Rightarrow> IndexNode" where
  "make_child n name = IndexNode (AList.update name (IndexNode [] None) (children n)) (entry n)"

definition get_child :: "IndexNode \<Rightarrow> string \<Rightarrow> error + IndexNode" where
  "get_child n name = (case map_of (children n) name of None \<Rightarrow> Inl (KeyError name) | Some c \<Rightarrow> Inr c)"

definition get_children :: "IndexNode \<Rightarrow> string list" where
  "get_children n = map fst (children n)"

text \<open>
  The loop of \<^verbatim>\<open>Index.insert\<close>. Python walks down through references and assigns
  \<^verbatim>\<open>directory.entry\<close> in place; the functional loop returns the node it was given
  with the change made below it, so the child it descended into is stored back under its
  name on the way up.
\<close>

fun insert_loop :: "IndexNode \<Rightarrow> string list \<Rightarrow> IndexEntry \<Rightarrow> error + IndexNode" where
  "insert_loop directory [] e = Inr (IndexNode (children directory) (Some e))"
| "insert_loop directory (part # parts) e =
     (let directory' = (if \<not> has_child directory part then make_child directory part else directory)
      in case get_child directory' part of
           Inl err \<Rightarrow> Inl err
         | Inr child \<Rightarrow>
             (case insert_loop child parts e of
                Inl err \<Rightarrow> Inl err
              | Inr child' \<Rightarrow>
                  Inr (IndexNode (AList.update part child' (children directory')) (entry directory'))))"

text \<open>
  \<^verbatim>\<open>Index.insert\<close>: \<open>None\<close> when \<open>atomize_path\<close> does not return (nothing has been
  changed then), otherwise the error raised or the index after the call.
\<close>

definition insert_index :: "Index \<Rightarrow> string \<Rightarrow> IndexEntry \<Rightarrow> (error + Index) option" where
  "insert_index idx path e =
     Option.bind (atomize_path path)
       (\<lambda>parts. Some (case insert_loop (root idx) parts e of
                         Inl err \<Rightarrow> Inl err
                       | Inr r \<Rightarrow> Inr (Index r)))"

text \<open>The loop of \<^verbatim>\<open>Index.readdir\<close> and the method.\<close>

fun readdir_loop :: "IndexNode \<Rightarrow> string list \<Rightarrow> error + string list" where
  "readdir_loop directory [] = Inr (get_children directory)"
| "readdir_loop directory (part # parts) =
     (if \<not> has_child directory part then Inl (NotFound part)
      else case get_child directory part of
             Inl err \<Rightarrow> Inl err
           | Inr child \<Rightarrow> readdir_loop child parts)"

definition readdir :: "Index \<Rightarrow> string \<Rightarrow> (error + string list) option" where
  "readdir idx path =
     Option.bind (atomize_path path) (\<lambda>parts. Some (readdir_loop (root idx) parts))"

text \<open>The loop of \<^verbatim>\<open>Index.get\<close> and the method; Python's \<^verbatim>\<open>None\<close> result is \<open>Inr None\<close>.\<close>

fun get_loop :: "IndexNode \<Rightarrow> string list \<Rightarrow> error + IndexEntry option" where
  "get_loop directory [] = Inr (entry directory)"
| "get_loop directory (part # parts) =
     (if \<not> has_child directory part then Inr None
      else case get_child directory part of
             Inl err \<Rightarrow> Inl err
           | Inr child \<Rightarrow> get_loop child parts)"

definition get :: "Index \<Rightarrow> string \<Rightarrow> (error + IndexEntry option) option" where
  "get idx path =
     Option.bind (atomize_path path) (\<lambda>parts. Some (get_loop (root idx) parts))"

text \<open>
  The node that a list of components names, if every component is present: the walk
  that the three loops above share. It is the yardstick the statements about the tree
  are written against.
\<close>

fun node_at :: "IndexNode \<Rightarrow> string list \<Rightarrow> IndexNode option" where
  "node_at d [] = Some d"
| "node_at d (part # parts) =
     (case map_of (children d) part of None \<Rightarrow> None | Some c \<Rightarrow> node_at c parts)"

section \<open>Listing a directory\<close>

text \<open>
  The \<^verbatim>\<open>--find\<close> branch of \<^verbatim>\<open>main\<close>. A printed line
  \<^verbatim>\<open>"{}\t{}".format(full_name, size)\<close> is the pair \<open>(full_name, size)\<close>. The result is
  the lines printed so far and how the run ended (\<open>find_path\<close> is \<^verbatim>\<open>options.find\<close>): \<open>None\<close> when a call did not return,
  \<open>Some (Inl err)\<close> when one raised, \<open>Some (Inr ())\<close> when the loop ran to its end.
\<close>

fun find_loop :: "Index \<Rightarrow> string \<Rightarrow> string list \<Rightarrow> (string \<times> int) list \<times> (error + unit) option" where
  "find_loop idx find_path [] = ([], Some (Inr ()))"
| "find_loop idx find_path (basename # rest) =
     (let full_name = os_path_join find_path basename
      in case get idx full_name of
           None \<Rightarrow> ([], None)
         | Some (Inl err) \<Rightarrow> ([], Some (Inl err))
         | Some (Inr e) \<Rightarrow>
             (let sz = (case e of None \<Rightarrow> 0 | Some e' \<Rightarrow> entry_size e')
              in case find_loop idx find_path rest of
                   (lines, ending) \<Rightarrow> ((full_name, sz) # lines, ending)))"

definition list_directory :: "Index \<Rightarrow> string \<Rightarrow> (string \<times> int) list \<times> (error + unit) option" where
  "list_directory idx find_path =
     (case readdir idx find_path of
        None \<Rightarrow> ([], None)
      | Some (Inl err) \<Rightarrow> ([], Some (Inl err))
      | Some (Inr names) \<Rightarrow> find_loop idx find_path names)"

section \<open>Building the index\<close>

text \<open>
  The \<^verbatim>\<open>tarfile.TarFile\<close> parser is an external collaborator that drives the adapter.
  One run of it is a trace: for every member it yields, the calls it made on the adapter
  to get there (\<open>fetch_ops\<close>: for the first member the calls of the constructor, for a
  later one the calls of the iterator's next step), the member's \<^verbatim>\<open>info.name\<close> and
  \<^verbatim>\<open>info.size\<close>, and the value of \<^verbatim>\<open>archive_tar.offset\<close> while the loop body runs. A
  parse error ends the trace early.
\<close>

datatype wrapper_op = OpRead int | OpReadline | OpSeek int int

record tar_step =
  fetch_ops :: "wrapper_op list"
  info_name :: string
  info_size :: int
  archive_tar_offset :: int

definition run_op :: "'r BgzfReader \<Rightarrow> 'r BgzfWrapper \<Rightarrow> wrapper_op \<Rightarrow> (error + unit) \<times> 'r BgzfWrapper" where
  "run_op R w op =
     (case op of
        OpRead n \<Rightarrow> (Inr (), snd (read R w n))
      | OpReadline \<Rightarrow> (Inr (), snd (readline R w))
      | OpSeek offs whence \<Rightarrow> seek R w offs whence)"

fun run_ops :: "'r BgzfReader \<Rightarrow> 'r BgzfWrapper \<Rightarrow> wrapper_op list \<Rightarrow> (error + unit) \<times> 'r BgzfWrapper" where
  "run_ops R w [] = (Inr (), w)"
| "run_ops R w (op # ops) =
     (case run_op R w op of
        (Inl err, w') \<Rightarrow> (Inl err, w')
      | (Inr u, w') \<Rightarrow> run_ops R w' ops)"

text \<open>
  The variables of the \<^verbatim>\<open>--index\<close> branch of \<^verbatim>\<open>main\<close>, and \<open>entries_made\<close>: the
  \<^verbatim>\<open>IndexEntry\<close> objects constructed so far, in order of construction.
\<close>

record 'r build_state =
  index :: Index
  bgzf_offset :: int
  tar_offset :: int
  archive_wrapper :: "'r BgzfWrapper"
  entries_made :: "IndexEntry list"

text \<open>
  The loop \<^verbatim>\<open>for info in archive_tar\<close>. The result is the state when the loop ended
  and how it ended, as for \<open>list_directory\<close>.
\<close>

fun build_loop :: "'r BgzfReader \<Rightarrow> 'r build_state \<Rightarrow> tar_step list \<Rightarrow> 'r build_state \<times> (error + unit) option" where
  "build_loop R s [] = (s, Some (Inr ()))"
| "build_loop R s (m # ms) =
     (case run_ops R (archive_wrapper s) (fetch_ops m) of
        (Inl err, w1) \<Rightarrow> (s\<lparr>archive_wrapper := w1\<rparr>, Some (Inl err))
      | (Inr u1, w1) \<Rightarrow>
          (case seek R w1 (archive_tar_offset m) SEEK_SET of
             (Inl err, w2) \<Rightarrow> (s\<lparr>archive_wrapper := w2\<rparr>, Some (Inl err))
           | (Inr u2, w2) \<Rightarrow>
               (let e = \<lparr>virtual_offset = bgzf_offset s, real_offset = tar_offset s,
                         entry_size = info_size m, next_virtual_offset = rd_tell R (reader w2)\<rparr>;
                    s1 = s\<lparr>archive_wrapper := w2, entries_made := entries_made s @ [e]\<rparr>
                in case insert_index (index s) (info_name m) e of
                     None \<Rightarrow> (s1, None)
                   | Some (Inl err) \<Rightarrow> (s1, Some (Inl err))
                   | Some (Inr idx') \<Rightarrow>
                       build_loop R
                         (s1\<lparr>index := idx', bgzf_offset := rd_tell R (reader w2),
                             tar_offset := tell w2\<rparr>) ms)))"

text \<open>
  The statements before the loop: an empty index, the adapter around the reader at
  offset 0, and the two offsets read before the parser is constructed.
\<close>

definition build_init :: "'r BgzfReader \<Rightarrow> 'r \<Rightarrow> 'r build_state" where
  "build_init R archive_bgzf =
     \<lparr>index = Index (IndexNode [] None),
      bgzf_offset = rd_tell R archive_bgzf,
      tar_offset = tell (wrap archive_bgzf 0),
      archive_wrapper = wrap archive_bgzf 0,
      entries_made = []\<rparr>"

definition build_index :: "'r BgzfReader \<Rightarrow> 'r \<Rightarrow> tar_step list \<Rightarrow> 'r build_state \<times> (error + unit) option" where
  "build_index R archive_bgzf steps = build_loop R (build_init R archive_bgzf) steps"

section \<open>Contracts of the external reader\<close>

text \<open>
  Reading never moves the reader's coordinate backwards: the ordering property of the
  codec that the coordinate claims rest on.
\<close>

definition monotone_reader :: "'r BgzfReader \<Rightarrow> bool" where
  "monotone_reader R =
     ((\<forall>r n. rd_tell R r \<le> rd_tell R (snd (rd_read R r n))) \<and>
      (\<forall>r. rd_tell R r \<le> rd_tell R (snd (rd_readline R r))))"

text \<open>
  The reader reads a finite stream of which \<open>remaining r\<close> bytes are left in state \<open>r\<close>:
  a read of a positive size returns at most that many bytes, takes them from what is
  left, and returns no bytes only at the end of the stream.
\<close>

definition stream_reader :: "'r BgzfReader \<Rightarrow> ('r \<Rightarrow> nat) \<Rightarrow> bool" where
  "stream_reader R remaining =
     (\<forall>r n. 0 < n \<longrightarrow>
        (case rd_read R r n of
           (bytes_read, r') \<Rightarrow>
             int (length bytes_read) \<le> n \<and>
             remaining r = length bytes_read + remaining r' \<and>
             (bytes_read = [] \<longrightarrow> remaining r = 0)))"

text \<open>
  A sample reader for concrete runs: the state is the position and the bytes left, a
  read hands out at most three bytes at a time, and the coordinate is the position.
\<close>

definition sample_reader :: "(int \<times> string) BgzfReader" where
  "sample_reader =
     \<lparr>rd_read = (\<lambda>(pos, left) n.
          (take (min 3 (nat n)) left, (pos + int (length (take (min 3 (nat n)) left)), drop (min 3 (nat n)) left))),
      rd_readline = (\<lambda>(pos, left).
          (takeWhile (\<lambda>c. c \<noteq> CHR 0x0A) left,
           (pos + int (length (takeWhile (\<lambda>c. c \<noteq> CHR 0x0A) left)), dropWhile (\<lambda>c. c \<noteq> CHR 0x0A) left))),
      rd_tell = fst\<rparr>"

text \<open>
  The chaining of a list of entries from a coordinate, in recursive form, and the
  coordinate a chained list ends at; both serve the proof of the build loop's invariant.
\<close>

fun chained :: "int \<Rightarrow> IndexEntry list \<Rightarrow> bool" where
  "chained c [] = True"
| "chained c (e # es) =
     (virtual_offset e = c \<and> virtual_offset e \<le> next_virtual_offset e \<and>
      chained (next_virtual_offset e) es)"

fun chain_end :: "int \<Rightarrow> IndexEntry list \<Rightarrow> int" where
  "chain_end c [] = c"
| "chain_end c (e # es) = chain_end (next_virtual_offset e) es"

text \<open>
  A sample index: the file \<^verbatim>\<open>a\<close> and the file \<^verbatim>\<open>d/b\<close>, whose directory \<^verbatim>\<open>d\<close>
  has no entry of its own. It is the index that the sample run builds.
\<close>

definition sample_index :: Index where
  "sample_index =
     Index (IndexNode
       [(''a'', IndexNode [] (Some \<lparr>virtual_offset = 0, real_offset = 0, entry_size = 3, next_virtual_offset = 5\<rparr>)),
        (''d'', IndexNode
           [(''b'', IndexNode [] (Some \<lparr>virtual_offset = 5, real_offset = 5, entry_size = 1, next_virtual_offset = 8\<rparr>))]
           None)]
       None)"

text \<open>A sample run of the parser over the sample reader: two members.\<close>

definition sample_steps :: "tar_step list" where
  "sample_steps =
     [\<lparr>fetch_ops = [OpRead 2], info_name = ''a'', info_size = 3, archive_tar_offset = 5\<rparr>,
      \<lparr>fetch_ops = [OpSeek 5 SEEK_SET, OpRead 2], info_name = ''d/b'', info_size = 1,
        archive_tar_offset = 8\<rparr>]"

section \<open>Path splitting: what \<open>atomize_path\<close> computes\<close>

lemma take_rfind:
  "take (nat (rfind p c + 1)) p = rev (dropWhile (\<lambda>x. x \<noteq> c) (rev p))"
proof (cases "c \<in> set p")
  case False
  then have "dropWhile (\<lambda>x. x \<noteq> c) (rev p) = []" by (auto simp: dropWhile_eq_Nil_conv)
  with False show ?thesis by (simp add: rfind_def)
next
  case True
  let ?k = "length (takeWhile (\<lambda>x. x \<noteq> c) (rev p))"
  have "?k \<le> length p" using length_takeWhile_le[of "\<lambda>x. x \<noteq> c" "rev p"] by simp
  then have i: "nat (rfind p c + 1) = length p - ?k" using True by (simp add: rfind_def)
  have "rev (dropWhile (\<lambda>x. x \<noteq> c) (rev p)) = rev (drop ?k (rev p))"
    by (simp add: dropWhile_eq_drop)
  also have "\<dots> = take (length p - ?k) p" by (simp add: rev_drop)
  finally show ?thesis using i by simp
qed

lemma drop_rfind:
  "drop (nat (rfind p c + 1)) p = rev (takeWhile (\<lambda>x. x \<noteq> c) (rev p))"
proof -
  have "take (nat (rfind p c + 1)) p @ drop (nat (rfind p c + 1)) p
        = rev (dropWhile (\<lambda>x. x \<noteq> c) (rev p)) @ rev (takeWhile (\<lambda>x. x \<noteq> c) (rev p))"
    by (simp add: rev_append[symmetric] del: rev_append)
  then show ?thesis by (simp add: take_rfind)
qed

lemma all_slashes_iff: "(h = replicate (length h) c) = (\<forall>x\<in>set h. x = c)"
  by (metis in_set_replicate replicate_eqI)

lemma os_path_split_eq:
  "os_path_split p =
     (let h = rev (dropWhile (\<lambda>x. x \<noteq> CHR ''/'') (rev p)) in
        (if h \<noteq> [] \<and> (\<exists>x\<in>set h. x \<noteq> CHR ''/'') then rstrip h CHR ''/'' else h,
         rev (takeWhile (\<lambda>x. x \<noteq> CHR ''/'') (rev p))))"
  unfolding os_path_split_def Let_def take_rfind drop_rfind
  using all_slashes_iff[of "rev (dropWhile (\<lambda>x. x \<noteq> CHR ''/'') (rev p))" "CHR ''/''"]
  by auto

lemma rstrip_prefix: "\<exists>k. p = rstrip p c @ replicate k c"
proof -
  let ?t = "takeWhile (\<lambda>x. x = c) (rev p)"
  have "?t = replicate (length ?t) c"
    unfolding all_slashes_iff by (auto dest: set_takeWhileD)
  moreover have "p = rev (dropWhile (\<lambda>x. x = c) (rev p)) @ rev ?t"
    by (simp add: rev_append[symmetric] del: rev_append)
  ultimately have "p = rstrip p c @ replicate (length ?t) c"
    by (metis rev_replicate rstrip_def)
  then show ?thesis ..
qed

lemma rstrip_hd:
  assumes "p \<noteq> []" "hd p \<noteq> c"
  shows "rstrip p c \<noteq> [] \<and> hd (rstrip p c) = hd p"
proof -
  obtain k where k: "p = rstrip p c @ replicate k c" using rstrip_prefix by blast
  have "rstrip p c \<noteq> []"
  proof
    assume "rstrip p c = []"
    with k have "p = replicate k c" by simp
    with assms show False by (cases k) auto
  qed
  then show ?thesis using k by (metis hd_append2)
qed

lemma rstrip_hd_abs:
  assumes "p \<noteq> []" "hd p = c" "\<exists>x\<in>set p. x \<noteq> c"
  shows "rstrip p c \<noteq> [] \<and> hd (rstrip p c) = c"
proof -
  obtain k where k: "p = rstrip p c @ replicate k c" using rstrip_prefix by blast
  have "rstrip p c \<noteq> []"
  proof
    assume "rstrip p c = []"
    with k have "p = replicate k c" by simp
    then have "\<forall>x\<in>set p. x = c" by (metis in_set_replicate)
    with assms show False by blast
  qed
  then show ?thesis using k assms by (metis hd_append2)
qed

lemma head_prefix_hd:
  assumes "rev (dropWhile P (rev p)) \<noteq> []"
  shows "hd (rev (dropWhile P (rev p))) = hd p"
proof -
  have "p = rev (dropWhile P (rev p)) @ rev (takeWhile P (rev p))"
    by (simp add: rev_append[symmetric] del: rev_append)
  then show ?thesis using assms by (metis hd_append2)
qed

lemma isabs_split_head:
  assumes "isabs p"
  shows "isabs (fst (os_path_split p))"
proof -
  let ?h = "rev (dropWhile (\<lambda>x. x \<noteq> CHR ''/'') (rev p))"
  from assms have p: "p \<noteq> []" "hd p = CHR ''/''" by (auto simp: isabs_def)
  then have "CHR ''/'' \<in> set (rev p)" by (cases p) auto
  then have "dropWhile (\<lambda>x. x \<noteq> CHR ''/'') (rev p) \<noteq> []"
    by (auto simp: dropWhile_eq_Nil_conv)
  then have h: "?h \<noteq> []" by simp
  then have hh: "hd ?h = CHR ''/''" using head_prefix_hd[of "\<lambda>x. x \<noteq> CHR ''/''" p] p by simp
  show ?thesis
  proof (cases "\<exists>x\<in>set ?h. x \<noteq> CHR ''/''")
    case True
    have eq: "fst (os_path_split p) = rstrip ?h CHR ''/''"
      unfolding os_path_split_eq Let_def using h True by simp
    show ?thesis
      unfolding isabs_def eq by (rule rstrip_hd_abs[OF h hh True])
  next
    case False
    have eq: "fst (os_path_split p) = ?h"
      unfolding os_path_split_eq Let_def using False
      by (simp only: simp_thms if_False fst_conv)
    show ?thesis unfolding isabs_def eq using h hh by blast
  qed
qed

lemma atomize_path_returns_relative:
  assumes "atomize_path p = Some parts"
  shows "\<not> isabs p"
proof (rule atomize_path.raw_induct[where P = "\<lambda>x y. \<not> isabs x", OF _ assms])
  fix f :: "string \<Rightarrow> string list option" and path parts'
  assume ih: "\<And>x y. f x = Some y \<Longrightarrow> \<not> isabs x"
    and step: "(case os_path_split path of (head, tail) \<Rightarrow>
        Option.bind (if head \<noteq> [] then f head else Some [])
          (\<lambda>parts. Some (if tail \<noteq> [] then parts @ [tail] else parts))) = Some parts'"
  show "\<not> isabs path"
  proof
    assume a: "isabs path"
    obtain h t where s: "os_path_split path = (h, t)" by (cases "os_path_split path")
    with isabs_split_head[OF a] have ha: "isabs h" by simp
    then have "h \<noteq> []" by (simp add: isabs_def)
    with step s obtain ps where "f h = Some ps"
      by (auto simp: bind_eq_Some_conv)
    with ih ha show False by blast
  qed
qed

lemma atomize_path_isabs: "isabs p \<Longrightarrow> atomize_path p = None"
  using atomize_path_returns_relative by (cases "atomize_path p") auto

lemma split_on_nonempty: "split_on c p \<noteq> []"
  by (induction p) (auto split: list.splits)

lemma split_on_append:
  "split_on c (a @ c # b) = split_on c a @ split_on c b"
  by (induction a) (auto split: list.splits simp: split_on_nonempty)

lemma split_on_absent: "c \<notin> set t \<Longrightarrow> split_on c t = [t]"
  by (induction t) auto

lemma components_slashes: "components (replicate k CHR ''/'') = []"
  by (induction k) (auto simp: components_def)

lemma components_append_slashes:
  "components (b @ replicate k CHR ''/'') = components b"
proof (cases k)
  case 0 then show ?thesis by simp
next
  case (Suc n)
  have "filter (\<lambda>w. w \<noteq> []) (split_on CHR ''/'' (replicate n CHR ''/'')) = []"
    using components_slashes[of n] by (simp add: components_def)
  then show ?thesis using Suc by (simp add: components_def split_on_append)
qed

lemma components_rstrip: "components (rstrip a CHR ''/'') = components a"
  by (metis components_append_slashes rstrip_prefix)

lemma rstrip_snoc: "rstrip (a @ [c]) c = rstrip a c"
  by (simp add: rstrip_def)

lemma length_rstrip: "length (rstrip a c) \<le> length a"
  using length_dropWhile_le[of "\<lambda>x. x = c" "rev a"] by (simp add: rstrip_def)

lemma atomize_path_relative:
  "\<not> isabs p \<Longrightarrow> atomize_path p = Some (components p)"
proof (induction p rule: length_induct)
  case (1 p)
  let ?P = "\<lambda>x. x \<noteq> CHR ''/''"
  let ?h = "rev (dropWhile ?P (rev p))"
  let ?t = "rev (takeWhile ?P (rev p))"
  have pht: "?h @ ?t = p" by (simp add: rev_append[symmetric] del: rev_append)
  have tfree: "CHR ''/'' \<notin> set ?t" by (auto dest: set_takeWhileD)
  show ?case
  proof (cases "?h = []")
    case True
    have tp: "?t = p" using pht unfolding True by (simp only: append_Nil)
    have "split_on CHR ''/'' ?t = [?t]" using tfree by (rule split_on_absent)
    then have c: "components p = (if p \<noteq> [] then [p] else [])"
      unfolding tp by (simp add: components_def)
    have s: "os_path_split p = ([], p)"
      unfolding os_path_split_eq Let_def True tp by simp
    show ?thesis by (subst atomize_path.simps) (simp add: s c)
  next
    case False
    then have dne: "dropWhile ?P (rev p) \<noteq> []" by simp
    then have "hd (dropWhile ?P (rev p)) = CHR ''/''" using hd_dropWhile[of ?P "rev p"] by simp
    then obtain d where d: "dropWhile ?P (rev p) = CHR ''/'' # d" using dne
      by (cases "dropWhile ?P (rev p)") auto
    then have h: "?h = rev d @ [CHR ''/'']" by simp
    have pa: "rev d @ CHR ''/'' # ?t = p" using pht unfolding h by simp
    have "p \<noteq> []" using pa by auto
    with 1(2) have hdp: "hd p \<noteq> CHR ''/''" by (simp add: isabs_def)
    have hdh: "hd ?h \<noteq> CHR ''/''" using head_prefix_hd[OF False] hdp by simp
    then have ex: "\<exists>x\<in>set ?h. x \<noteq> CHR ''/''" using False by (metis hd_in_set)
    let ?head = "rstrip ?h CHR ''/''"
    have hn: "?head \<noteq> [] \<and> hd ?head = hd ?h" using rstrip_hd[OF False hdh] .
    then have rel: "\<not> isabs ?head" using hdh by (simp add: isabs_def)
    have head_d: "?head = rstrip (rev d) CHR ''/''" unfolding h by (rule rstrip_snoc)
    have "length ?head \<le> length d" unfolding head_d using length_rstrip[of "rev d"] by simp
    moreover have "length p = length d + 1 + length ?t"
      using arg_cong[OF pa, of length] by simp
    ultimately have "length ?head < length p" by arith
    with 1(1) rel have ih: "atomize_path ?head = Some (components ?head)" by blast
    have ch: "components ?head = components (rev d)"
      unfolding head_d by (rule components_rstrip)
    have "components (rev d @ CHR ''/'' # ?t) = components (rev d) @ (if ?t \<noteq> [] then [?t] else [])"
      unfolding components_def split_on_append split_on_absent[OF tfree] by simp
    then have cp: "components p = components (rev d) @ (if ?t \<noteq> [] then [?t] else [])"
      unfolding pa .
    have s: "os_path_split p = (?head, ?t)"
      unfolding os_path_split_eq Let_def using False ex by simp
    show ?thesis
      by (subst atomize_path.simps) (simp add: s hn ih ch cp)
  qed
qed

text \<open>
  C6. \<open>atomize_path\<close> is claimed to return, for every path, the non-empty components,
  so that \<^verbatim>\<open>"a/b"\<close>, \<^verbatim>\<open>"a//b"\<close>, \<^verbatim>\<open>"/a/b"\<close> and \<^verbatim>\<open>"a/b/"\<close> all split alike. The
  first, second and fourth do; on \<^verbatim>\<open>"/a/b"\<close> the recursion reaches the head \<^verbatim>\<open>"/"\<close>,
  which \<^verbatim>\<open>os.path.split\<close> returns unchanged, and never returns.
\<close>

theorem atomize_path_leading_slash:
  "atomize_path ''a/b'' = Some [''a'', ''b''] \<and>
   atomize_path ''a//b'' = Some [''a'', ''b''] \<and>
   atomize_path ''a/b/'' = Some [''a'', ''b''] \<and>
   atomize_path ''/a/b'' = None"
  by (simp add: atomize_path_relative atomize_path_isabs isabs_def components_def)

section \<open>The adapter: seeking\<close>

declare seek_loop.simps [simp del]

text \<open>
  C7. A seek from the end fails on the first assertion (\<open>UnsupportedOperation\<close>), an
  absolute seek to a target behind the current offset and a relative seek by a negative
  distance fail on the second (\<open>InvalidSeek\<close>), and in each case the adapter (its reader
  and its offset, so also \<open>tell\<close>) is as it was before the call.
\<close>

theorem seek_rejects_end_and_backward:
  "seek R w offs SEEK_END = (Inl UnsupportedOperation, w) \<and>
   (offs < offset w \<longrightarrow> seek R w offs SEEK_SET = (Inl InvalidSeek, w)) \<and>
   (offs < 0 \<longrightarrow> seek R w offs SEEK_CUR = (Inl InvalidSeek, w)) \<and>
   tell (snd (seek R w offs SEEK_END)) = tell w \<and>
   (offs < offset w \<longrightarrow> tell (snd (seek R w offs SEEK_SET)) = tell w) \<and>
   (offs < 0 \<longrightarrow> tell (snd (seek R w offs SEEK_CUR)) = tell w)"
  by (simp add: seek_def SEEK_SET_def SEEK_CUR_def SEEK_END_def)

theorem seek_rejects_end_and_backward_witness:
  "(4::int) < offset (wrap (0, ''abcdefgh'') 10) \<and>
   seek sample_reader (wrap (0, ''abcdefgh'') 10) 4 SEEK_SET
     = (Inl InvalidSeek, wrap (0, ''abcdefgh'') 10) \<and>
   (- 1::int) < 0 \<and>
   seek sample_reader (wrap (0, ''abcdefgh'') 10) (- 1) SEEK_CUR
     = (Inl InvalidSeek, wrap (0, ''abcdefgh'') 10) \<and>
   seek sample_reader (wrap (0, ''abcdefgh'') 10) 4 SEEK_END
     = (Inl UnsupportedOperation, wrap (0, ''abcdefgh'') 10) \<and>
   tell (snd (seek sample_reader (wrap (0, ''abcdefgh'') 10) 4 SEEK_SET)) = 10"
  using seek_rejects_end_and_backward [of sample_reader "wrap (0, ''abcdefgh'') 10" 4]
    seek_rejects_end_and_backward [of sample_reader "wrap (0, ''abcdefgh'') 10" "- 1"]
  by (simp add: wrap_def tell_def)

lemma sample_reader_stream: "stream_reader sample_reader (\<lambda>r. length (snd r))"
  by (auto simp: stream_reader_def sample_reader_def split: prod.splits)

lemma sample_reader_monotone: "monotone_reader sample_reader"
  by (auto simp: monotone_reader_def sample_reader_def split: prod.splits)

text \<open>
  The seek loop over a reader that reads a finite stream: the offset advances by the
  requested distance or by what is left of the stream, whichever is smaller, and the
  stream shrinks by the same amount.
\<close>

lemma seek_loop_stream:
  "stream_reader R remaining \<Longrightarrow> 0 \<le> distance \<Longrightarrow>
     offset (seek_loop R w distance) = offset w + min distance (int (remaining (reader w))) \<and>
     int (remaining (reader (seek_loop R w distance))) =
       int (remaining (reader w)) - min distance (int (remaining (reader w)))"
proof (induction R w distance rule: seek_loop.induct)
  case (1 R w distance)
  show ?case
  proof (cases "0 < distance")
    case False
    with 1(3) have "distance = 0" by simp
    then show ?thesis by (simp add: seek_loop.simps)
  next
    case True
    obtain bs r' where rd: "rd_read R (reader w) distance = (bs, r')"
      by (cases "rd_read R (reader w) distance")
    let ?w' = "w\<lparr>reader := r', offset := offset w + int (length bs)\<rparr>"
    have rw: "read R w distance = (bs, ?w')" by (simp add: read_def rd)
    have "case rd_read R (reader w) distance of
           (bytes_read, r') \<Rightarrow>
             int (length bytes_read) \<le> distance \<and>
             remaining (reader w) = length bytes_read + remaining r' \<and>
             (bytes_read = [] \<longrightarrow> remaining (reader w) = 0)"
      using 1(2)[unfolded stream_reader_def, rule_format, OF True, of "reader w"] .
    then have c: "int (length bs) \<le> distance"
      "remaining (reader w) = length bs + remaining r'"
      "bs = [] \<longrightarrow> remaining (reader w) = 0"
      by (auto simp: rd)
    show ?thesis
    proof (cases "bs = []")
      case Nil: True
      have "seek_loop R w distance = ?w'"
        by (subst seek_loop.simps) (simp add: \<open>0 < distance\<close> rw Nil)
      then show ?thesis using c Nil by simp
    next
      case False
      have sl: "seek_loop R w distance = seek_loop R ?w' (distance - int (length bs))"
        by (subst seek_loop.simps) (simp add: \<open>0 < distance\<close> rw False)
      have "int (length bs) \<noteq> 0" using False by simp
      from 1(1)[OF True rw[symmetric] this 1(2)] c(1)
      have ih: "offset (seek_loop R ?w' (distance - int (length bs))) =
                  offset ?w' + min (distance - int (length bs)) (int (remaining (reader ?w')))"
        "int (remaining (reader (seek_loop R ?w' (distance - int (length bs))))) =
           int (remaining (reader ?w')) - min (distance - int (length bs)) (int (remaining (reader ?w')))"
        by simp_all
      show ?thesis unfolding sl ih using c(1,2) by (simp add: min_def)
    qed
  qed
qed


text \<open>
  C8. Over a reader that reads a finite stream, a forward seek returns normally. When the
  stream has at least \<open>distance\<close> bytes left, \<open>tell\<close> has advanced by exactly \<open>distance\<close>
  (for an absolute seek it is the requested target). When the stream has fewer, \<open>tell\<close>
  has advanced by what was left, short of the target: the adapter is at the end of the
  stream, where every further read returns no bytes.
\<close>

theorem seek_forward_target_or_end:
  assumes "stream_reader R remaining"
    and "whence \<noteq> SEEK_END"
    and "distance = (if whence = SEEK_SET then offs - offset w else offs)"
    and "0 \<le> distance"
  shows "fst (seek R w offs whence) = Inr () \<and>
         (distance \<le> int (remaining (reader w)) \<longrightarrow>
            tell (snd (seek R w offs whence)) = tell w + distance \<and>
            (whence = SEEK_SET \<longrightarrow> tell (snd (seek R w offs whence)) = offs)) \<and>
         (int (remaining (reader w)) < distance \<longrightarrow>
            tell (snd (seek R w offs whence)) = tell w + int (remaining (reader w)) \<and>
            remaining (reader (snd (seek R w offs whence))) = 0 \<and>
            (\<forall>n. 0 < n \<longrightarrow> fst (read R (snd (seek R w offs whence)) n) = []))"
proof -
  have s: "seek R w offs whence = (Inr (), seek_loop R w distance)"
    using assms(2,3,4) by (simp add: seek_def)
  note l = seek_loop_stream[OF assms(1,4), of w]
  have eof: "fst (read R w' n) = []" if "remaining (reader w') = 0" "0 < n" for w' n
  proof -
    obtain bs r' where rd: "rd_read R (reader w') n = (bs, r')"
      by (cases "rd_read R (reader w') n")
    from assms(1)[unfolded stream_reader_def, rule_format, OF that(2), of "reader w'"]
    have "remaining (reader w') = length bs + remaining r'" by (simp add: rd)
    with that(1) show ?thesis by (simp add: read_def rd)
  qed
  have r0: "remaining (reader (seek_loop R w distance)) = 0"
    if "int (remaining (reader w)) < distance"
    using l that by (simp add: min_def)
  show ?thesis
    unfolding s using l assms(3) eof[OF r0] r0 by (auto simp: tell_def min_def)
qed

theorem seek_forward_target_or_end_witness:
  "stream_reader sample_reader (\<lambda>r. length (snd r)) \<and>
   fst (seek sample_reader (wrap (0, ''abcdefgh'') 0) 20 SEEK_SET) = Inr () \<and>
   tell (snd (seek sample_reader (wrap (0, ''abcdefgh'') 0) 20 SEEK_SET)) = 8 \<and>
   tell (snd (seek sample_reader (wrap (0, ''abcdefgh'') 0) 5 SEEK_SET)) = 5"
  using seek_forward_target_or_end [OF sample_reader_stream, of SEEK_SET 20 20 "wrap (0, ''abcdefgh'') 0"]
    seek_forward_target_or_end [OF sample_reader_stream, of SEEK_SET 5 5 "wrap (0, ''abcdefgh'') 0"]
    sample_reader_stream
  by (simp add: wrap_def tell_def SEEK_SET_def SEEK_END_def)

section \<open>Building the index: the coordinates of the entries\<close>

text \<open>Every call on the adapter leaves the reader's coordinate where it was or further on.\<close>

lemma read_tell_mono:
  assumes "monotone_reader R"
  shows "rd_tell R (reader w) \<le> rd_tell R (reader (snd (read R w n)))"
  using assms[unfolded monotone_reader_def, THEN conjunct1, rule_format, of "reader w" n]
  by (auto simp: read_def split: prod.splits)

lemma readline_tell_mono:
  assumes "monotone_reader R"
  shows "rd_tell R (reader w) \<le> rd_tell R (reader (snd (readline R w)))"
  using assms[unfolded monotone_reader_def, THEN conjunct2, rule_format, of "reader w"]
  by (auto simp: readline_def split: prod.splits)

lemma seek_loop_tell_mono:
  "monotone_reader R \<Longrightarrow> rd_tell R (reader w) \<le> rd_tell R (reader (seek_loop R w distance))"
proof (induction R w distance rule: seek_loop.induct)
  case (1 R w distance)
  show ?case
  proof (cases "0 < distance")
    case False
    then show ?thesis by (simp add: seek_loop.simps)
  next
    case True
    obtain bs w' where rw: "read R w distance = (bs, w')" by (cases "read R w distance")
    have m: "rd_tell R (reader w) \<le> rd_tell R (reader w')"
      using read_tell_mono[OF 1(2), of w distance] by (simp add: rw)
    show ?thesis
    proof (cases "int (length bs) = 0")
      case True
      have "seek_loop R w distance = w'"
        using \<open>0 < distance\<close> True by (subst seek_loop.simps) (simp add: rw)
      then show ?thesis using m by simp
    next
      case False
      have "seek_loop R w distance = seek_loop R w' (distance - int (length bs))"
        using \<open>0 < distance\<close> False by (subst seek_loop.simps) (simp add: rw)
      moreover have "rd_tell R (reader w') \<le> rd_tell R (reader (seek_loop R w' (distance - int (length bs))))"
        using 1(1)[OF True rw[symmetric] False 1(2)] .
      ultimately show ?thesis using m by simp
    qed
  qed
qed

lemma seek_tell_mono:
  "monotone_reader R \<Longrightarrow> rd_tell R (reader w) \<le> rd_tell R (reader (snd (seek R w offs whence)))"
  by (simp add: seek_def Let_def seek_loop_tell_mono)

lemma run_op_tell_mono:
  "monotone_reader R \<Longrightarrow> rd_tell R (reader w) \<le> rd_tell R (reader (snd (run_op R w op)))"
  by (cases op) (simp_all add: run_op_def read_tell_mono readline_tell_mono seek_tell_mono)

lemma run_ops_tell_mono:
  "monotone_reader R \<Longrightarrow> rd_tell R (reader w) \<le> rd_tell R (reader (snd (run_ops R w ops)))"
proof (induction ops arbitrary: w)
  case Nil
  then show ?case by simp
next
  case (Cons op ops)
  obtain res w' where r: "run_op R w op = (res, w')" by (cases "run_op R w op")
  have m: "rd_tell R (reader w) \<le> rd_tell R (reader w')"
    using run_op_tell_mono[OF Cons.prems, of w op] by (simp add: r)
  show ?case
  proof (cases res)
    case (Inl err)
    then show ?thesis using m by (simp add: r)
  next
    case (Inr u)
    then show ?thesis using m Cons.IH[OF Cons.prems, of w'] by (simp add: r)
  qed
qed

lemma chained_snoc:
  "chained c (es @ [e]) =
     (chained c es \<and> virtual_offset e = chain_end c es \<and>
      virtual_offset e \<le> next_virtual_offset e)"
  by (induction es arbitrary: c) auto

lemma chain_end_snoc: "chain_end c (es @ [e]) = next_virtual_offset e"
  by (induction es arbitrary: c) auto

lemma chained_nth:
  "chained c es \<Longrightarrow>
     (es \<noteq> [] \<longrightarrow> virtual_offset (hd es) = c) \<and>
     (\<forall>i. Suc i < length es \<longrightarrow> virtual_offset (es ! Suc i) = next_virtual_offset (es ! i)) \<and>
     (\<forall>e\<in>set es. virtual_offset e \<le> next_virtual_offset e)"
proof (induction es arbitrary: c)
  case Nil
  then show ?case by simp
next
  case (Cons e es)
  from Cons.prems have ch: "chained (next_virtual_offset e) es" by simp
  note ih = Cons.IH[OF ch]
  have "virtual_offset ((e # es) ! Suc i) = next_virtual_offset ((e # es) ! i)"
    if "Suc i < length (e # es)" for i
  proof (cases i)
    case 0
    with that have "es \<noteq> []" by auto
    with ih 0 show ?thesis by (cases es) auto
  next
    case (Suc j)
    with that ih show ?thesis by simp
  qed
  then show ?case using Cons.prems ih by auto
qed

lemma build_loop_chained:
  "monotone_reader R \<Longrightarrow> chained c (entries_made s) \<Longrightarrow>
   chain_end c (entries_made s) = bgzf_offset s \<Longrightarrow>
   bgzf_offset s \<le> rd_tell R (reader (archive_wrapper s)) \<Longrightarrow>
   chained c (entries_made (fst (build_loop R s ms)))"
proof (induction ms arbitrary: s)
  case Nil
  then show ?case by simp
next
  case (Cons m ms)
  obtain res1 w1 where r1: "run_ops R (archive_wrapper s) (fetch_ops m) = (res1, w1)"
    by (cases "run_ops R (archive_wrapper s) (fetch_ops m)")
  obtain res2 w2 where r2: "seek R w1 (archive_tar_offset m) SEEK_SET = (res2, w2)"
    by (cases "seek R w1 (archive_tar_offset m) SEEK_SET")
  have m1: "rd_tell R (reader (archive_wrapper s)) \<le> rd_tell R (reader w1)"
    using run_ops_tell_mono[OF Cons.prems(1), of "archive_wrapper s" "fetch_ops m"] by (simp add: r1)
  have m2: "rd_tell R (reader w1) \<le> rd_tell R (reader w2)"
    using seek_tell_mono[OF Cons.prems(1), of w1 "archive_tar_offset m" SEEK_SET] by (simp add: r2)
  let ?e = "\<lparr>virtual_offset = bgzf_offset s, real_offset = tar_offset s,
             entry_size = info_size m, next_virtual_offset = rd_tell R (reader w2)\<rparr>"
  have che: "chained c (entries_made s @ [?e])"
    using Cons.prems m1 m2 by (simp add: chained_snoc)
  show ?case
  proof (cases res1)
    case (Inl err)
    then show ?thesis using Cons.prems(2) by (simp add: r1)
  next
    case Inr1: (Inr u1)
    show ?thesis
    proof (cases res2)
      case (Inl err)
      then show ?thesis using Cons.prems(2) Inr1 by (simp add: r1 r2)
    next
      case Inr2: (Inr u2)
      show ?thesis
      proof (cases "insert_index (index s) (info_name m) ?e")
        case None
        then show ?thesis using che Inr1 Inr2 by (simp add: r1 r2 Let_def)
      next
        case (Some res3)
        show ?thesis
        proof (cases res3)
          case (Inl err)
          then show ?thesis using che Inr1 Inr2 Some by (simp add: r1 r2 Let_def)
        next
          case (Inr idx')
          let ?s' = "s\<lparr>archive_wrapper := w2, entries_made := entries_made s @ [?e],
                       index := idx', bgzf_offset := rd_tell R (reader w2), tar_offset := tell w2\<rparr>"
          have "chained c (entries_made (fst (build_loop R ?s' ms)))"
            by (rule Cons.IH[OF Cons.prems(1)]) (simp_all add: che chain_end_snoc)
          then show ?thesis using Inr1 Inr2 Some Inr by (simp add: r1 r2 Let_def)
        qed
      qed
    qed
  qed
qed

text \<open>A run of the loop that reaches its end has made one entry for every member.\<close>

lemma build_loop_all_entries:
  "snd (build_loop R s ms) = Some (Inr ()) \<Longrightarrow>
     length (entries_made (fst (build_loop R s ms))) = length (entries_made s) + length ms"
proof (induction ms arbitrary: s)
  case Nil
  show ?case by simp
next
  case (Cons m ms)
  obtain res1 w1 where r1: "run_ops R (archive_wrapper s) (fetch_ops m) = (res1, w1)"
    by (cases "run_ops R (archive_wrapper s) (fetch_ops m)")
  obtain res2 w2 where r2: "seek R w1 (archive_tar_offset m) SEEK_SET = (res2, w2)"
    by (cases "seek R w1 (archive_tar_offset m) SEEK_SET")
  let ?e = "\<lparr>virtual_offset = bgzf_offset s, real_offset = tar_offset s,
             entry_size = info_size m, next_virtual_offset = rd_tell R (reader w2)\<rparr>"
  show ?case
  proof (cases res1)
    case (Inl err)
    with Cons.prems show ?thesis by (simp add: r1)
  next
    case Inr1: (Inr u1)
    show ?thesis
    proof (cases res2)
      case (Inl err)
      with Cons.prems Inr1 show ?thesis by (simp add: r1 r2)
    next
      case Inr2: (Inr u2)
      show ?thesis
      proof (cases "insert_index (index s) (info_name m) ?e")
        case None
        with Cons.prems Inr1 Inr2 show ?thesis by (simp add: r1 r2 Let_def)
      next
        case (Some res3)
        show ?thesis
        proof (cases res3)
          case (Inl err)
          with Cons.prems Inr1 Inr2 Some show ?thesis by (simp add: r1 r2 Let_def)
        next
          case (Inr idx')
          let ?s' = "s\<lparr>archive_wrapper := w2, entries_made := entries_made s @ [?e],
                       index := idx', bgzf_offset := rd_tell R (reader w2), tar_offset := tell w2\<rparr>"
          have step: "build_loop R s (m # ms) = build_loop R ?s' ms"
            using Inr1 Inr2 Some Inr by (simp add: r1 r2 Let_def)
          with Cons.prems have "snd (build_loop R ?s' ms) = Some (Inr ())" by simp
          from Cons.IH[OF this] show ?thesis unfolding step by simp
        qed
      qed
    qed
  qed
qed

text \<open>
  C1. The entries made by the build loop, in the order they are made, are chained: the
  first starts at the coordinate read before the parser was constructed, each later one
  starts where the one before it ends, and (the reader's coordinate never moving
  backwards) none ends before it starts. This holds for every run of the loop, also one
  that an exception ends early.
\<close>

theorem build_entries_chained:
  assumes "monotone_reader R"
    and "es = entries_made (fst (build_index R archive_bgzf steps))"
  shows "(es \<noteq> [] \<longrightarrow> virtual_offset (hd es) = rd_tell R archive_bgzf) \<and>
         (\<forall>i. Suc i < length es \<longrightarrow> virtual_offset (es ! Suc i) = next_virtual_offset (es ! i)) \<and>
         (\<forall>e\<in>set es. virtual_offset e \<le> next_virtual_offset e)"
proof -
  have "chained (rd_tell R archive_bgzf) es"
    unfolding assms(2) build_index_def
    by (rule build_loop_chained[OF assms(1)]) (simp_all add: build_init_def wrap_def)
  then show ?thesis by (rule chained_nth)
qed

theorem build_entries_chained_witness:
  "monotone_reader sample_reader \<and>
   entries_made (fst (build_index sample_reader (0, ''0123456789AB'') sample_steps)) =
     [\<lparr>virtual_offset = 0, real_offset = 0, entry_size = 3, next_virtual_offset = 5\<rparr>,
      \<lparr>virtual_offset = 5, real_offset = 5, entry_size = 1, next_virtual_offset = 8\<rparr>] \<and>
   virtual_offset (hd (entries_made (fst (build_index sample_reader (0, ''0123456789AB'') sample_steps))))
     = rd_tell sample_reader (0, ''0123456789AB'') \<and>
   virtual_offset (entries_made (fst (build_index sample_reader (0, ''0123456789AB'') sample_steps)) ! Suc 0)
     = next_virtual_offset (entries_made (fst (build_index sample_reader (0, ''0123456789AB'') sample_steps)) ! 0)"
  using build_entries_chained [OF sample_reader_monotone refl, of "(0, ''0123456789AB'')" sample_steps]
    sample_reader_monotone
  by (simp add: sample_steps_def build_index_def build_init_def wrap_def tell_def run_op_def
      read_def seek_def seek_loop.simps sample_reader_def insert_index_def atomize_path_relative
      isabs_def components_def has_child_def make_child_def get_child_def SEEK_SET_def
      SEEK_END_def Let_def)

section \<open>The index tree\<close>

text \<open>
  One step of the insertion loop, with the three method calls folded together: the loop
  descends into the child of that name, or into a fresh empty node when there is none,
  and the node that comes back is stored under the name.
\<close>

lemma insert_loop_Cons:
  "insert_loop d (p # ps) e =
     (case insert_loop (case map_of (children d) p of None \<Rightarrow> IndexNode [] None | Some c \<Rightarrow> c) ps e of
        Inl err \<Rightarrow> Inl err
      | Inr c' \<Rightarrow> Inr (IndexNode (AList.update p c' (children d)) (entry d)))"
  by (cases "map_of (children d) p")
     (simp_all add: has_child_def make_child_def get_child_def Let_def update_conv' split: sum.splits)

declare insert_loop.simps(2) [simp del]

lemma insert_loop_returns: "\<exists>d'. insert_loop d ps e = Inr d'"
proof (induction ps arbitrary: d)
  case Nil
  show ?case by simp
next
  case (Cons p ps)
  let ?c0 = "case map_of (children d) p of None \<Rightarrow> IndexNode [] None | Some c \<Rightarrow> c"
  from Cons[of ?c0] obtain c' where "insert_loop ?c0 ps e = Inr c'" by blast
  then show ?case by (simp add: insert_loop_Cons)
qed

lemma insert_loop_ConsE:
  assumes "insert_loop d (p # ps) e = Inr d'"
  obtains c' where
    "insert_loop (case map_of (children d) p of None \<Rightarrow> IndexNode [] None | Some c \<Rightarrow> c) ps e = Inr c'"
    "d' = IndexNode (AList.update p c' (children d)) (entry d)"
  using assms by (auto simp: insert_loop_Cons split: sum.splits)

lemma node_at_leaf: "node_at (IndexNode [] x) q = (if q = [] then Some (IndexNode [] x) else None)"
  by (cases q) simp_all

lemma insert_loop_node_at_other:
  "insert_loop d ps e = Inr d' \<Longrightarrow> \<not> prefix q ps \<Longrightarrow> node_at d' q = node_at d q"
proof (induction ps arbitrary: d d' q)
  case Nil
  then obtain x xs where q: "q = x # xs" by (cases q) auto
  from Nil(1) have "children d' = children d" by auto
  then show ?case by (simp add: q)
next
  case (Cons p ps)
  let ?c0 = "case map_of (children d) p of None \<Rightarrow> IndexNode [] None | Some c \<Rightarrow> c"
  from Cons.prems(1) obtain c' where
    c': "insert_loop ?c0 ps e = Inr c'" and
    d': "d' = IndexNode (AList.update p c' (children d)) (entry d)"
    by (rule insert_loop_ConsE)
  from Cons.prems(2) obtain x xs where q: "q = x # xs" by (cases q) auto
  show ?case
  proof (cases "x = p")
    case False
    then show ?thesis by (simp add: q d' update_conv')
  next
    case True
    with Cons.prems(2) q have np: "\<not> prefix xs ps" by simp
    then have xs: "xs \<noteq> []" by auto
    have "node_at c' xs = node_at ?c0 xs" using Cons.IH[OF c' np] .
    then show ?thesis using True xs
      by (cases "map_of (children d) p") (simp_all add: q d' update_conv' node_at_leaf)
  qed
qed

lemma insert_loop_node_at_target:
  "insert_loop d ps e = Inr d' \<Longrightarrow>
     \<exists>n'. node_at d' ps = Some n' \<and> entry n' = Some e \<and>
          children n' = (case node_at d ps of None \<Rightarrow> [] | Some n \<Rightarrow> children n)"
proof (induction ps arbitrary: d d')
  case Nil
  then show ?case by auto
next
  case (Cons p ps)
  let ?c0 = "case map_of (children d) p of None \<Rightarrow> IndexNode [] None | Some c \<Rightarrow> c"
  from Cons.prems(1) obtain c' where
    c': "insert_loop ?c0 ps e = Inr c'" and
    d': "d' = IndexNode (AList.update p c' (children d)) (entry d)"
    by (rule insert_loop_ConsE)
  from Cons.IH[OF c'] obtain n' where
    n': "node_at c' ps = Some n'" "entry n' = Some e"
        "children n' = (case node_at ?c0 ps of None \<Rightarrow> [] | Some n \<Rightarrow> children n)"
    by blast
  have "(case node_at ?c0 ps of None \<Rightarrow> [] | Some n \<Rightarrow> children n)
        = (case node_at d (p # ps) of None \<Rightarrow> [] | Some n \<Rightarrow> children n)"
    by (cases "map_of (children d) p") (simp_all add: node_at_leaf)
  with n' show ?case by (simp add: d' update_conv')
qed

lemma insert_loop_node_at_prefix:
  "insert_loop d (pre @ c # rest) e = Inr d' \<Longrightarrow>
     \<exists>n'. node_at d' pre = Some n' \<and> c \<in> set (get_children n') \<and>
          (\<forall>n. node_at d pre = Some n \<longrightarrow>
               entry n' = entry n \<and> set (get_children n') = insert c (set (get_children n))) \<and>
          (node_at d pre = None \<longrightarrow> entry n' = None)"
proof (induction pre arbitrary: d d')
  case Nil
  then obtain c' where
    d': "d' = IndexNode (AList.update c c' (children d)) (entry d)"
    by (auto elim: insert_loop_ConsE)
  show ?case by (simp add: d' get_children_def dom_update)
next
  case (Cons p pre)
  let ?c0 = "case map_of (children d) p of None \<Rightarrow> IndexNode [] None | Some c \<Rightarrow> c"
  from Cons.prems(1) obtain c' where
    c': "insert_loop ?c0 (pre @ c # rest) e = Inr c'" and
    d': "d' = IndexNode (AList.update p c' (children d)) (entry d)"
    by (auto elim: insert_loop_ConsE)
  from Cons.IH[OF c'] obtain n' where
    ih: "node_at c' pre = Some n' \<and> c \<in> set (get_children n') \<and>
          (\<forall>n. node_at ?c0 pre = Some n \<longrightarrow>
               entry n' = entry n \<and> set (get_children n') = insert c (set (get_children n))) \<and>
          (node_at ?c0 pre = None \<longrightarrow> entry n' = None)" ..
  then have n': "node_at c' pre = Some n'" "c \<in> set (get_children n')"
        "\<forall>n. node_at ?c0 pre = Some n \<longrightarrow>
               entry n' = entry n \<and> set (get_children n') = insert c (set (get_children n))"
        "node_at ?c0 pre = None \<longrightarrow> entry n' = None"
    by simp_all
  have k1: "node_at ?c0 pre = Some n" if "node_at d (p # pre) = Some n" for n
    using that by (cases "map_of (children d) p") simp_all
  have k2: "node_at ?c0 pre = None \<or> node_at ?c0 pre = Some (IndexNode [] None)"
    if "node_at d (p # pre) = None"
    using that by (cases "map_of (children d) p") (simp_all add: node_at_leaf)
  have "entry n' = None" if "node_at d (p # pre) = None"
    using k2[OF that] n'(3,4) by auto
  with n' k1 show ?case by (simp add: d' update_conv')
qed

lemma get_loop_node_at:
  "get_loop d ps = Inr (case node_at d ps of None \<Rightarrow> None | Some n \<Rightarrow> entry n)"
  by (induction ps arbitrary: d) (auto simp: has_child_def get_child_def split: option.splits)

lemma readdir_loop_node_at:
  "node_at d ps = Some n \<Longrightarrow> readdir_loop d ps = Inr (get_children n)"
  by (induction ps arbitrary: d) (auto simp: has_child_def get_child_def split: option.splits)

lemma readdir_loop_absent:
  "node_at d ps = None \<Longrightarrow> \<exists>p\<in>set ps. readdir_loop d ps = Inl (NotFound p)"
  by (induction ps arbitrary: d) (auto simp: has_child_def get_child_def split: option.splits)

lemma node_at_append:
  "node_at d (ps @ qs) = (case node_at d ps of None \<Rightarrow> None | Some n \<Rightarrow> node_at n qs)"
  by (induction ps arbitrary: d) (auto split: option.splits)

lemma insert_index_Some:
  assumes "insert_index idx path e = Some (Inr idx')"
  shows "\<exists>parts. atomize_path path = Some parts \<and>
                 insert_loop (root idx) parts e = Inr (root idx')"
proof -
  from assms obtain parts where
    p: "atomize_path path = Some parts" and
    r: "(case insert_loop (root idx) parts e of Inl err \<Rightarrow> Inl err | Inr r \<Rightarrow> Inr (Index r))
          = Inr idx'"
    by (auto simp: insert_index_def bind_eq_Some_conv)
  obtain d' where d': "insert_loop (root idx) parts e = Inr d'"
    using insert_loop_returns by blast
  with r have "idx' = Index d'" by simp
  with p d' show ?thesis by simp
qed

lemma insert_index_returns:
  "atomize_path path = Some parts \<Longrightarrow> \<exists>idx'. insert_index idx path e = Some (Inr idx')"
  using insert_loop_returns[of "root idx" parts e] by (auto simp: insert_index_def)

lemma get_eq:
  "atomize_path path = Some parts \<Longrightarrow>
     get idx path = Some (Inr (case node_at (root idx) parts of None \<Rightarrow> None | Some n \<Rightarrow> entry n))"
  by (simp add: get_def get_loop_node_at)

text \<open>
  Joining a valid component (not empty, no slash in it) onto a path that splits adds
  that component to the end of the split.
\<close>

lemma atomize_path_Some:
  "atomize_path p = Some parts \<Longrightarrow> \<not> isabs p \<and> parts = components p"
  using atomize_path_returns_relative[of p parts] atomize_path_relative[of p] by auto

lemma components_Nil: "components [] = []"
  by (simp add: components_def)

lemma components_name:
  "name \<noteq> [] \<Longrightarrow> CHR ''/'' \<notin> set name \<Longrightarrow> components name = [name]"
  by (simp add: components_def split_on_absent)

lemma components_append_name:
  "name \<noteq> [] \<Longrightarrow> CHR ''/'' \<notin> set name \<Longrightarrow>
     components (a @ CHR ''/'' # name) = components a @ [name]"
  by (simp add: components_def split_on_append split_on_absent)

lemma components_trailing_slash: "components (a @ [CHR ''/'']) = components a"
  using components_append_slashes[of a 1] by simp

lemma components_join:
  assumes "\<not> isabs p" "name \<noteq> []" "CHR ''/'' \<notin> set name"
  shows "\<not> isabs (os_path_join p name) \<and>
         components (os_path_join p name) = components p @ [name]"
proof -
  from assms(2,3) have hn: "hd name \<noteq> CHR ''/''" by (cases name) auto
  show ?thesis
  proof (cases "p = []")
    case True
    then show ?thesis using assms hn
      by (simp add: os_path_join_def isabs_def components_Nil components_name)
  next
    case False
    with assms(1) have hp: "hd p \<noteq> CHR ''/''" by (simp add: isabs_def)
    show ?thesis
    proof (cases "last p = CHR ''/''")
      case True
      with False have p: "p = butlast p @ [CHR ''/'']" by (metis append_butlast_last_id)
      have j: "os_path_join p name = butlast p @ CHR ''/'' # name"
        using hn True False p by (simp add: os_path_join_def)
      have "components (os_path_join p name) = components (butlast p) @ [name]"
        unfolding j using assms(2,3) by (rule components_append_name)
      moreover have "components p = components (butlast p)"
        using components_trailing_slash[of "butlast p"] p by simp
      moreover have "\<not> isabs (os_path_join p name)"
        using hn True False hp by (simp add: os_path_join_def isabs_def)
      ultimately show ?thesis by simp
    next
      case l: False
      have j: "os_path_join p name = p @ CHR ''/'' # name"
        using hn l False by (simp add: os_path_join_def)
      show ?thesis unfolding j using assms(2,3) False hp
        by (simp add: components_append_name isabs_def)
    qed
  qed
qed

lemma atomize_path_join:
  assumes "atomize_path p = Some parts" "name \<noteq> []" "CHR ''/'' \<notin> set name"
  shows "atomize_path (os_path_join p name) = Some (parts @ [name])"
  using atomize_path_Some[OF assms(1)] components_join[OF _ assms(2,3), of p]
  by (simp add: atomize_path_relative)

text \<open>
  Every list of valid components is the split of some path, so every prefix of the
  components of a path names a directory path.
\<close>

lemma split_on_pieces: "w \<in> set (split_on c p) \<Longrightarrow> c \<notin> set w"
proof (induction p arbitrary: w)
  case Nil
  then show ?case by simp
next
  case (Cons x xs)
  show ?case
  proof (cases "x = c")
    case True
    with Cons show ?thesis by auto
  next
    case False
    obtain v vs where s: "split_on c xs = v # vs"
      using split_on_nonempty[of c xs] by (cases "split_on c xs") auto
    with Cons.prems False have "w = x # v \<or> w \<in> set vs" by simp
    then show ?thesis using Cons.IH[of v] Cons.IH[of w] s False by auto
  qed
qed

lemma components_valid:
  "w \<in> set (components p) \<Longrightarrow> w \<noteq> [] \<and> CHR ''/'' \<notin> set w"
  by (auto simp: components_def dest: split_on_pieces)

lemma atomize_path_foldl_join:
  "(\<forall>w\<in>set ws. w \<noteq> [] \<and> CHR ''/'' \<notin> set w) \<Longrightarrow>
     atomize_path (foldl os_path_join [] ws) = Some ws"
proof (induction ws rule: rev_induct)
  case Nil
  show ?case by (simp add: atomize_path_relative isabs_def components_Nil)
next
  case (snoc w ws)
  then have "atomize_path (foldl os_path_join [] ws) = Some ws" by simp
  from atomize_path_join[OF this, of w] snoc.prems show ?case by simp
qed

lemma prefix_dir_exists:
  assumes "atomize_path path = Some (pre @ rest)"
  shows "\<exists>dir. atomize_path dir = Some pre"
proof -
  from atomize_path_Some[OF assms] have "pre @ rest = components path" by simp
  then have "\<forall>w\<in>set pre. w \<noteq> [] \<and> CHR ''/'' \<notin> set w"
    using components_valid[of _ path] by (metis Un_iff set_append)
  from atomize_path_foldl_join[OF this] show ?thesis ..
qed

lemmas tree_eval =
  insert_index_def get_def readdir_def list_directory_def insert_loop_Cons
  has_child_def make_child_def get_child_def get_children_def
  atomize_path_relative atomize_path_isabs isabs_def components_def os_path_join_def

text \<open>
  C2. After \<^verbatim>\<open>insert(path, e1)\<close> and \<^verbatim>\<open>insert(path, e2)\<close>, \<^verbatim>\<open>get(path)\<close> is claimed
  to return \<open>e2\<close> for every path. For a path that starts with a slash neither
  insertion returns, and neither does \<^verbatim>\<open>get\<close>: each calls \<open>atomize_path\<close> first, which
  recurses without end, so no entry is stored and none is returned.
\<close>

theorem insert_twice_leading_slash:
  "insert_index idx ''/a'' e1 = None \<and> insert_index idx ''/a'' e2 = None \<and>
   get idx ''/a'' = None"
  by (simp add: insert_index_def get_def atomize_path_isabs isabs_def)

text \<open>
  For every other path the insertions and the lookup do what C2 says: both insertions
  return, and \<^verbatim>\<open>get\<close> on the index they leave returns the later entry.
\<close>

lemma insert_twice_keeps_later:
  assumes "\<not> isabs path"
  shows "\<exists>idx1 idx2.
           insert_index idx path e1 = Some (Inr idx1) \<and>
           insert_index idx1 path e2 = Some (Inr idx2) \<and>
           get idx2 path = Some (Inr (Some e2))"
proof -
  have p: "atomize_path path = Some (components path)"
    using assms by (rule atomize_path_relative)
  from insert_index_returns[OF p] obtain idx1 where
    i1: "insert_index idx path e1 = Some (Inr idx1)" by blast
  from insert_index_returns[OF p] obtain idx2 where
    i2: "insert_index idx1 path e2 = Some (Inr idx2)" by blast
  from insert_index_Some[OF i2] p
  have l: "insert_loop (root idx1) (components path) e2 = Inr (root idx2)" by auto
  from insert_loop_node_at_target[OF l] obtain n' where
    "node_at (root idx2) (components path) = Some n'" "entry n' = Some e2" by blast
  then have "get idx2 path = Some (Inr (Some e2))" by (simp add: get_eq[OF p])
  with i1 i2 show ?thesis by blast
qed

text \<open>
  C3. \<^verbatim>\<open>get\<close> is claimed to return for every path and never to raise. For a path that
  starts with a slash it does not return: \<open>atomize_path\<close> is called first and recurses
  without end, whatever the index holds.
\<close>

theorem get_leading_slash: "get idx ''/'' = None \<and> get idx ''/a'' = None"
  by (simp add: get_def atomize_path_isabs isabs_def)

text \<open>
  For every other path \<^verbatim>\<open>get\<close> does what C3 says: it returns, without an error, the
  entry of the node the components name, and \<^verbatim>\<open>None\<close> when a component is absent or
  that node has no entry.
\<close>

lemma get_relative:
  "\<not> isabs path \<Longrightarrow>
     get idx path =
       Some (Inr (case node_at (root idx) (components path) of None \<Rightarrow> None | Some n \<Rightarrow> entry n))"
  by (simp add: get_eq atomize_path_relative)

text \<open>
  C4. \<^verbatim>\<open>readdir\<close> is claimed to fail with \<open>NotFound\<close> or to return the child names for
  every path. For a path that starts with a slash it does neither: \<open>atomize_path\<close> does
  not return.
\<close>

theorem readdir_leading_slash: "readdir idx ''/'' = None \<and> readdir idx ''/d'' = None"
  by (simp add: readdir_def atomize_path_isabs isabs_def)

text \<open>
  For every other path \<^verbatim>\<open>readdir\<close> does what C4 says: \<open>NotFound\<close> (of one of the
  path's components) when a component is absent, the child names of the node otherwise.
\<close>

lemma readdir_relative:
  "\<not> isabs path \<Longrightarrow>
     (case node_at (root idx) (components path) of
        None \<Rightarrow> \<exists>part\<in>set (components path). readdir idx path = Some (Inl (NotFound part))
      | Some n \<Rightarrow> readdir idx path = Some (Inr (get_children n)))"
  using readdir_loop_absent[of "root idx" "components path"]
  by (auto simp: readdir_def atomize_path_relative readdir_loop_node_at split: option.splits)

text \<open>
  C5. After \<^verbatim>\<open>insert(path, entry)\<close> every prefix directory of the path is claimed to
  list the component that follows it, the parents being created by the insertion. For a
  path that starts with a slash the insertion does not return and creates nothing:
  \<^verbatim>\<open>insert("/a/b", e)\<close> on the empty index leaves the root without children, and listing
  \<^verbatim>\<open>"/a"\<close> does not return either.
\<close>

theorem insert_leading_slash_lists_nothing:
  "insert_index (Index (IndexNode [] None)) ''/a/b'' e = None \<and>
   readdir (Index (IndexNode [] None)) '''' = Some (Inr []) \<and>
   readdir idx ''/a'' = None"
  by (simp add: insert_index_def readdir_def get_children_def atomize_path_isabs
      atomize_path_relative isabs_def components_def)

text \<open>
  For every other path the insertion does what C5 says. It returns; and for every proper
  prefix \<open>pre\<close> of the components of the path, with \<open>c\<close> the component that follows it,
  there is a directory path that splits into \<open>pre\<close>, and listing any such directory path
  in the index after the insertion succeeds, with \<open>c\<close> among the names listed.
\<close>

lemma insert_lists_next_component:
  assumes "\<not> isabs path"
    and "components path = pre @ c # rest"
  shows "\<exists>idx'. insert_index idx path e = Some (Inr idx') \<and>
           (\<exists>dir. atomize_path dir = Some pre) \<and>
           (\<forall>dir. atomize_path dir = Some pre \<longrightarrow>
              (\<exists>names. readdir idx' dir = Some (Inr names) \<and> c \<in> set names))"
proof -
  have p: "atomize_path path = Some (pre @ c # rest)"
    using atomize_path_relative[OF assms(1)] assms(2) by simp
  from insert_index_returns[OF p] obtain idx' where
    i: "insert_index idx path e = Some (Inr idx')" by blast
  from insert_index_Some[OF i] p
  have l: "insert_loop (root idx) (pre @ c # rest) e = Inr (root idx')" by auto
  from insert_loop_node_at_prefix[OF l] obtain n' where
    n': "node_at (root idx') pre = Some n'" "c \<in> set (get_children n')" by blast
  have "\<exists>names. readdir idx' dir = Some (Inr names) \<and> c \<in> set names"
    if "atomize_path dir = Some pre" for dir
    using n' that by (simp add: readdir_def readdir_loop_node_at)
  then show ?thesis using i prefix_dir_exists[OF p] by blast
qed

text \<open>
  C10. The frame of \<^verbatim>\<open>insert(path, entry)\<close>, with \<open>parts\<close> the components of \<open>path\<close>.
  Off the inserted path (component lists that are not a prefix of \<open>parts\<close>) the tree is
  untouched: the same node, with its whole subtree, or none as before. A node that
  existed on the path is still there, with every child name it had; its entry is
  unchanged unless it is the terminal node, and the terminal node keeps its children.
  So \<^verbatim>\<open>get\<close> of any path with other components returns what it returned before.
\<close>

theorem insert_frame:
  assumes "insert_index idx path e = Some (Inr idx')"
    and "atomize_path path = Some parts"
  shows "(\<forall>q. \<not> prefix q parts \<longrightarrow> node_at (root idx') q = node_at (root idx) q) \<and>
         (\<forall>q n. prefix q parts \<longrightarrow> node_at (root idx) q = Some n \<longrightarrow>
            (\<exists>n'. node_at (root idx') q = Some n' \<and>
                  set (get_children n) \<subseteq> set (get_children n') \<and>
                  (q \<noteq> parts \<longrightarrow> entry n' = entry n) \<and>
                  (q = parts \<longrightarrow> children n' = children n))) \<and>
         (\<forall>other qs. atomize_path other = Some qs \<longrightarrow> qs \<noteq> parts \<longrightarrow>
            get idx' other = get idx other)"
proof -
  from insert_index_Some[OF assms(1)] assms(2)
  have l: "insert_loop (root idx) parts e = Inr (root idx')" by auto
  have other: "node_at (root idx') q = node_at (root idx) q" if "\<not> prefix q parts" for q
    using insert_loop_node_at_other[OF l that] .
  have pre: "\<exists>n'. node_at (root idx') q = Some n' \<and>
                  set (get_children n) \<subseteq> set (get_children n') \<and>
                  (q \<noteq> parts \<longrightarrow> entry n' = entry n) \<and>
                  (q = parts \<longrightarrow> children n' = children n)"
    if pq: "prefix q parts" and n: "node_at (root idx) q = Some n" for q n
  proof (cases "q = parts")
    case True
    with insert_loop_node_at_target[OF l] n show ?thesis by (auto simp: get_children_def)
  next
    case False
    with pq obtain c rest where "parts = q @ c # rest"
      by (metis prefixE list.exhaust append_Nil2)
    with insert_loop_node_at_prefix[of "root idx" q c rest e "root idx'"] l n False
    show ?thesis by auto
  qed
  have entry_same: "(case node_at (root idx') qs of None \<Rightarrow> None | Some n \<Rightarrow> entry n)
                  = (case node_at (root idx) qs of None \<Rightarrow> None | Some n \<Rightarrow> entry n)"
    if ne: "qs \<noteq> parts" for qs
  proof (cases "prefix qs parts")
    case False
    then show ?thesis by (simp add: other)
  next
    case True
    with ne obtain c rest where ps: "parts = qs @ c # rest"
      by (metis prefixE list.exhaust append_Nil2)
    from insert_loop_node_at_prefix[of "root idx" qs c rest e "root idx'"] l ps
    obtain n' where n': "node_at (root idx') qs = Some n'"
      "\<forall>n. node_at (root idx) qs = Some n \<longrightarrow> entry n' = entry n"
      "node_at (root idx) qs = None \<longrightarrow> entry n' = None" by auto
    show ?thesis
    proof (cases "node_at (root idx) qs")
      case (Some n)
      with n' show ?thesis by simp
    next
      case None
      with n' show ?thesis by simp
    qed
  qed
  show ?thesis using other pre entry_same by (auto simp: get_eq)
qed


theorem insert_frame_witness:
  "insert_index sample_index ''d''
      \<lparr>virtual_offset = 8, real_offset = 8, entry_size = 0, next_virtual_offset = 9\<rparr>
     = Some (Inr (Index (IndexNode
       [(''a'', IndexNode [] (Some \<lparr>virtual_offset = 0, real_offset = 0, entry_size = 3, next_virtual_offset = 5\<rparr>)),
        (''d'', IndexNode
           [(''b'', IndexNode [] (Some \<lparr>virtual_offset = 5, real_offset = 5, entry_size = 1, next_virtual_offset = 8\<rparr>))]
           (Some \<lparr>virtual_offset = 8, real_offset = 8, entry_size = 0, next_virtual_offset = 9\<rparr>))]
       None))) \<and>
   atomize_path ''d'' = Some [''d''] \<and>
   atomize_path ''d/b'' = Some [''d'', ''b''] \<and>
   get (Index (IndexNode
       [(''a'', IndexNode [] (Some \<lparr>virtual_offset = 0, real_offset = 0, entry_size = 3, next_virtual_offset = 5\<rparr>)),
        (''d'', IndexNode
           [(''b'', IndexNode [] (Some \<lparr>virtual_offset = 5, real_offset = 5, entry_size = 1, next_virtual_offset = 8\<rparr>))]
           (Some \<lparr>virtual_offset = 8, real_offset = 8, entry_size = 0, next_virtual_offset = 9\<rparr>))]
       None)) ''d/b''
     = get sample_index ''d/b'' \<and>
   get sample_index ''d/b''
     = Some (Inr (Some \<lparr>virtual_offset = 5, real_offset = 5, entry_size = 1, next_virtual_offset = 8\<rparr>))"
  using insert_frame
    [of sample_index "''d''"
        "\<lparr>virtual_offset = 8, real_offset = 8, entry_size = 0, next_virtual_offset = 9\<rparr>"
        "Index (IndexNode
       [(''a'', IndexNode [] (Some \<lparr>virtual_offset = 0, real_offset = 0, entry_size = 3, next_virtual_offset = 5\<rparr>)),
        (''d'', IndexNode
           [(''b'', IndexNode [] (Some \<lparr>virtual_offset = 5, real_offset = 5, entry_size = 1, next_virtual_offset = 8\<rparr>))]
           (Some \<lparr>virtual_offset = 8, real_offset = 8, entry_size = 0, next_virtual_offset = 9\<rparr>))]
       None)" "[''d'']"]
  by (simp add: tree_eval sample_index_def)

section \<open>Listing a directory: the sizes printed\<close>

text \<open>
  What the listing prints against claim C9: the directory \<^verbatim>\<open>d\<close>, which has no entry,
  is listed with the number 0, like the empty file \<^verbatim>\<open>z\<close>; and a child is listed under
  the directory path joined with its name (\<^verbatim>\<open>d/b\<close>), not under its bare name.
\<close>

theorem list_directory_prints_zero:
  "list_directory
     (Index (IndexNode
        [(''d'', IndexNode [(''b'', IndexNode [] None)] None),
         (''z'', IndexNode [] (Some \<lparr>virtual_offset = 0, real_offset = 0, entry_size = 0, next_virtual_offset = 0\<rparr>))]
        None)) ''''
   = ([(''d'', 0), (''z'', 0)], Some (Inr ())) \<and>
   list_directory
     (Index (IndexNode
        [(''d'', IndexNode [(''b'', IndexNode [] None)] None),
         (''z'', IndexNode [] (Some \<lparr>virtual_offset = 0, real_offset = 0, entry_size = 0, next_virtual_offset = 0\<rparr>))]
        None)) ''d''
   = ([(''d/b'', 0)], Some (Inr ()))"
  by (simp add: tree_eval)

lemma find_loop_lines:
  assumes "atomize_path find_path = Some parts" "node_at (root idx) parts = Some d"
  shows "(\<forall>name\<in>set names. name \<noteq> [] \<and> CHR ''/'' \<notin> set name) \<Longrightarrow>
         find_loop idx find_path names =
           (map (\<lambda>name. (os_path_join find_path name,
                          case map_of (children d) name of
                            None \<Rightarrow> 0
                          | Some c \<Rightarrow> (case entry c of None \<Rightarrow> 0 | Some e \<Rightarrow> entry_size e)))
                names,
            Some (Inr ()))"
proof (induction names)
  case Nil
  show ?case by simp
next
  case (Cons name names)
  then have v: "name \<noteq> []" "CHR ''/'' \<notin> set name" by simp_all
  have g: "get idx (os_path_join find_path name) =
             Some (Inr (case map_of (children d) name of None \<Rightarrow> None | Some c \<Rightarrow> entry c))"
    using get_eq[OF atomize_path_join[OF assms(1) v], of idx] assms(2)
    by (simp add: node_at_append split: option.splits)
  show ?case using Cons g by (simp add: Let_def split: option.splits)
qed

text \<open>
  C9, amended. For a directory path that splits and names a node of the index whose
  child names are valid components, the listing runs to its end and prints one line per
  child: the directory path joined with the child's name, and the size of the child's
  entry, or the number 0 when the child has no entry.
\<close>

theorem list_directory_lines:
  assumes "atomize_path find_path = Some parts"
    and "node_at (root idx) parts = Some d"
    and "distinct (get_children d)"
    and "\<forall>name\<in>set (get_children d). name \<noteq> [] \<and> CHR ''/'' \<notin> set name"
  shows "list_directory idx find_path =
           (map (\<lambda>(name, child). (os_path_join find_path name,
                                   case entry child of None \<Rightarrow> 0 | Some e \<Rightarrow> entry_size e))
                (children d),
            Some (Inr ()))"
proof -
  have r: "readdir idx find_path = Some (Inr (get_children d))"
    by (simp add: readdir_def assms(1) readdir_loop_node_at[OF assms(2)])
  have m: "map_of (children d) name = Some child" if "(name, child) \<in> set (children d)" for name child
    using assms(3) that by (simp add: get_children_def)
  have "map (\<lambda>name. (os_path_join find_path name,
                          case map_of (children d) name of
                            None \<Rightarrow> 0
                          | Some c \<Rightarrow> (case entry c of None \<Rightarrow> 0 | Some e \<Rightarrow> entry_size e)))
            (get_children d)
        = map (\<lambda>(name, child). (os_path_join find_path name,
                                   case entry child of None \<Rightarrow> 0 | Some e \<Rightarrow> entry_size e))
                (children d)"
    unfolding get_children_def map_map by (rule map_cong) (auto simp: m)
  then show ?thesis
    using find_loop_lines[OF assms(1,2), of "get_children d" ] assms(4)
    by (simp add: list_directory_def r)
qed

theorem list_directory_lines_witness:
  "atomize_path ''d'' = Some [''d''] \<and>
   node_at (root sample_index) [''d''] =
     Some (IndexNode [(''b'', IndexNode [] (Some \<lparr>virtual_offset = 5, real_offset = 5, entry_size = 1, next_virtual_offset = 8\<rparr>))] None) \<and>
   list_directory sample_index ''d'' = ([(''d/b'', 1)], Some (Inr ()))"
  using list_directory_lines [of "''d''" "[''d'']" sample_index
     "IndexNode [(''b'', IndexNode [] (Some \<lparr>virtual_offset = 5, real_offset = 5, entry_size = 1, next_virtual_offset = 8\<rparr>))] None"]
  by (simp add: tree_eval sample_index_def)

end
